theory Spec2Isabelle
  imports Complex_Main
begin

section \<open>Python values\<close>

text \<open>
  A Python \<^verbatim>\<open>str\<close> is a sequence of Unicode code points; it is modelled as a list of
  natural numbers, one per code point. \<open>lit\<close> turns an ASCII literal into such a string.
\<close>

type_synonym str = "nat list"

definition lit :: "string \<Rightarrow> str" where
  "lit s = map of_char s"

text \<open>
  The code points for which \<^verbatim>\<open>str.isspace\<close> holds; \<^verbatim>\<open>str.strip()\<close> without
  arguments removes exactly these from both ends.
\<close>

definition is_space :: "nat \<Rightarrow> bool" where
  "is_space c =
     ((9 \<le> c \<and> c \<le> 13) \<or> (28 \<le> c \<and> c \<le> 32) \<or> c = 133 \<or> c = 160 \<or> c = 5760
      \<or> (8192 \<le> c \<and> c \<le> 8202) \<or> c = 8232 \<or> c = 8233 \<or> c = 8239 \<or> c = 8287
      \<or> c = 12288)"

definition strip :: "str \<Rightarrow> str" where
  "strip s = rev (dropWhile is_space (rev (dropWhile is_space s)))"

text \<open>
  Truthiness of an \<^verbatim>\<open>Optional[str]\<close>, as tested by \<^verbatim>\<open>if candidate:\<close>: neither
  \<^verbatim>\<open>None\<close> nor the empty string.
\<close>

definition truthy :: "str option \<Rightarrow> bool" where
  "truthy v = (case v of None \<Rightarrow> False | Some s \<Rightarrow> s \<noteq> [])"

text \<open>
  Every exception the browser library raises is an instance of \<^verbatim>\<open>Exception\<close>, which
  is what each handler of the source catches. A call that may raise returns \<open>exn + 'a\<close>.
\<close>

datatype exn = PyError string

section \<open>The page, as the scripts see it\<close>

record box =
  box_x :: real
  box_y :: real
  box_width :: real
  box_height :: real

text \<open>An element handle: what each of its methods answers when called.\<close>

record element =
  el_inner_text :: "exn + str"
  el_is_visible :: "exn + bool"
  el_bounding_box :: "exn + box option"
  el_click :: "exn + unit"
  el_type :: "nat \<Rightarrow> exn + unit"

text \<open>
  A page state: what each query answers. \<open>pg_wait_for_selector\<close> takes the selector
  and the timeout in milliseconds (the state waited for is always \<^verbatim>\<open>visible\<close>).
\<close>

record page =
  pg_url :: str
  pg_query_selector_all :: "str \<Rightarrow> exn + element list"
  pg_query_selector :: "str \<Rightarrow> exn + element option"
  pg_wait_for_selector :: "str \<Rightarrow> nat \<Rightarrow> exn + element option"
  pg_mouse_move :: "real \<Rightarrow> real \<Rightarrow> nat \<Rightarrow> exn + unit"
  pg_keyboard_press :: "str \<Rightarrow> exn + unit"

section \<open>config.py\<close>


definition SEND_BUTTON_SELECTORS :: "str list" where
  "SEND_BUTTON_SELECTORS =
     [lit ''button[aria-label*='' @ [39] @ lit ''Send'' @ [39] @ lit '']'',
      lit ''button[data-testid*='' @ [39] @ lit ''send'' @ [39] @ lit '']'',
      lit ''button[class*='' @ [39] @ lit ''send'' @ [39] @ lit '']'']"

definition RESPONSE_SELECTORS :: "str list" where
  "RESPONSE_SELECTORS =
     [lit ''div.message-blocks'',
      lit ''div[class*='' @ [39] @ lit ''message-blocks'' @ [39] @ lit '']'',
      lit ''[class*='' @ [39] @ lit ''message-blocks'' @ [39] @ lit '']'',
      lit ''[data-message-author='' @ [39] @ lit ''assistant'' @ [39] @ lit '']'',
      lit ''[data-role='' @ [39] @ lit ''assistant'' @ [39] @ lit '']'',
      lit ''[data-testid*='' @ [39] @ lit ''assistant'' @ [39] @ lit '']'',
      lit ''div[class*='' @ [39] @ lit ''message'' @ [39] @ lit '']'',
      lit ''[class*='' @ [39] @ lit ''message'' @ [39] @ lit '']'',
      lit ''.assistant-message'',
      lit ''.message.ai'',
      lit ''.message-content'']"

definition THINKING_SELECTORS :: "str list" where
  "THINKING_SELECTORS =
     [lit ''div.thinking-message'',
      lit ''[data-testid*='' @ [39] @ lit ''thinking'' @ [39] @ lit '']'']"

section \<open>ask_question.py: the readers\<close>

text \<open>
  The inner loop of \<^verbatim>\<open>_collect_responses\<close>: the stripped, non-empty texts of the
  elements in DOM order; the first \<^verbatim>\<open>inner_text()\<close> that raises ends it.
\<close>

fun element_texts :: "element list \<Rightarrow> exn + str list" where
  "element_texts [] = Inr []"
| "element_texts (el # els) =
     (case el_inner_text el of
        Inl e \<Rightarrow> Inl e
      | Inr t \<Rightarrow>
          (case element_texts els of
             Inl e \<Rightarrow> Inl e
           | Inr ts \<Rightarrow> Inr (if strip t \<noteq> [] then strip t # ts else ts)))"

text \<open>The body of the \<^verbatim>\<open>try\<close> for one selector, up to \<^verbatim>\<open>selector_texts\<close>.\<close>

definition selector_texts :: "page \<Rightarrow> str \<Rightarrow> exn + str list" where
  "selector_texts pg selector =
     (case pg_query_selector_all pg selector of
        Inl e \<Rightarrow> Inl e
      | Inr elements \<Rightarrow> element_texts elements)"

text \<open>
  The loop over the selectors, with the list as a parameter: an exception or an empty
  \<^verbatim>\<open>selector_texts\<close> goes on to the next selector; after the last one, \<^verbatim>\<open>[]\<close>.
\<close>

fun collect_from :: "str list \<Rightarrow> page \<Rightarrow> exn + str list" where
  "collect_from [] pg = Inr []"
| "collect_from (selector # rest) pg =
     (case selector_texts pg selector of
        Inl e \<Rightarrow> collect_from rest pg
      | Inr ts \<Rightarrow> if ts \<noteq> [] then Inr ts else collect_from rest pg)"

definition collect_responses :: "page \<Rightarrow> exn + str list" where
  "collect_responses pg = collect_from RESPONSE_SELECTORS pg"

text \<open>
  \<^verbatim>\<open>any(node.is_visible() for node in nodes)\<close>: stops at the first visible node; an
  \<^verbatim>\<open>is_visible()\<close> that raises before that raises out of \<^verbatim>\<open>any\<close>.
\<close>

fun any_visible :: "element list \<Rightarrow> exn + bool" where
  "any_visible [] = Inr False"
| "any_visible (node # nodes) =
     (case el_is_visible node of
        Inl e \<Rightarrow> Inl e
      | Inr b \<Rightarrow> if b then Inr True else any_visible nodes)"

fun thinking_from :: "str list \<Rightarrow> page \<Rightarrow> exn + bool" where
  "thinking_from [] pg = Inr False"
| "thinking_from (selector # rest) pg =
     (case (case pg_query_selector_all pg selector of
              Inl e \<Rightarrow> Inl e
            | Inr nodes \<Rightarrow> any_visible nodes) of
        Inl e \<Rightarrow> thinking_from rest pg
      | Inr b \<Rightarrow> if b then Inr True else thinking_from rest pg)"

definition is_thinking :: "page \<Rightarrow> exn + bool" where
  "is_thinking pg = thinking_from THINKING_SELECTORS pg"



section \<open>Effects\<close>

text \<open>
  What the scripts print. The source's texts carry emoji; each message is named here and
  keeps its arguments.
\<close>

datatype message =
    MsgNotAuthenticated
  | MsgAsking str
  | MsgBoard str
  | MsgOpening
  | MsgRedirected
  | MsgNoInput
  | MsgFoundInput str
  | MsgSubmitting
  | MsgWaiting
  | MsgGotAnswer
  | MsgTimeout
  | MsgError exn
  | MsgTypeNotFound str

text \<open>
  What the scripts do to the outside, in order. An action is recorded when it is
  called, whether or not it then raises. \<open>Click\<close> carries the selector the clicked
  element was resolved for, \<open>RandomDelay\<close> the bounds of
  \<^verbatim>\<open>StealthUtils.random_delay\<close>, \<open>Sleep\<close> milliseconds.
\<close>

datatype event =
    Print message
  | MouseMove real real nat
  | RandomDelay nat nat
  | Click str
  | TypeChar nat
  | KeyPress str
  | Sleep nat
  | ContextClose
  | PlaywrightStop

text \<open>
  A computation either returns, raises, or is still inside the poll loop when the
  recorded observations of the page end (\<open>Unfinished\<close>); it extends the event log.
\<close>

datatype 'a res = Ret 'a | Exc exn | Unfinished

type_synonym 'a io = "event list \<Rightarrow> 'a res \<times> event list"

definition io_return :: "'a \<Rightarrow> 'a io" where
  "io_return v evs = (Ret v, evs)"

definition io_unfinished :: "'a io" where
  "io_unfinished evs = (Unfinished, evs)"

definition io_lift :: "exn + 'a \<Rightarrow> 'a io" where
  "io_lift r evs = (case r of Inl e \<Rightarrow> (Exc e, evs) | Inr v \<Rightarrow> (Ret v, evs))"

definition io_emit :: "event \<Rightarrow> unit io" where
  "io_emit ev evs = (Ret (), evs @ [ev])"

definition io_bind :: "'a io \<Rightarrow> ('a \<Rightarrow> 'b io) \<Rightarrow> 'b io" where
  "io_bind m f evs =
     (case m evs of
        (Ret v, evs') \<Rightarrow> f v evs'
      | (Exc e, evs') \<Rightarrow> (Exc e, evs')
      | (Unfinished, evs') \<Rightarrow> (Unfinished, evs'))"

text \<open>\<^verbatim>\<open>try: m  except Exception as e: h e\<close>\<close>

definition io_try :: "'a io \<Rightarrow> (exn \<Rightarrow> 'a io) \<Rightarrow> 'a io" where
  "io_try m h evs =
     (case m evs of
        (Exc e, evs') \<Rightarrow> h e evs'
      | (r, evs') \<Rightarrow> (r, evs'))"

text \<open>
  \<^verbatim>\<open>try: m  finally: fin\<close>: \<open>fin\<close> runs after \<open>m\<close> has returned or raised, and the
  outcome of \<open>m\<close> stands unless \<open>fin\<close> itself raises.
\<close>

definition io_finally :: "'a io \<Rightarrow> unit io \<Rightarrow> 'a io" where
  "io_finally m fin evs =
     (case m evs of
        (Unfinished, evs') \<Rightarrow> (Unfinished, evs')
      | (r, evs') \<Rightarrow>
          (case fin evs' of
             (Ret u, evs'') \<Rightarrow> (r, evs'')
           | (Exc e, evs'') \<Rightarrow> (Exc e, evs'')
           | (Unfinished, evs'') \<Rightarrow> (Unfinished, evs'')))"

section \<open>browser_utils.py: StealthUtils\<close>

definition resolve_visible_element :: "page \<Rightarrow> str \<Rightarrow> exn + element option" where
  "resolve_visible_element pg selector =
     (let wait = (case pg_wait_for_selector pg selector 2000 of
                    Inl e \<Rightarrow> Inr None
                  | Inr h \<Rightarrow> Inr h)
      in case pg_query_selector pg selector of
           Inl e \<Rightarrow> Inl e
         | Inr None \<Rightarrow> wait
         | Inr (Some element) \<Rightarrow>
             (case el_is_visible element of
                Inl e \<Rightarrow> Inr (Some element)
              | Inr visible \<Rightarrow> if visible then Inr (Some element) else wait))"

definition realistic_click :: "page \<Rightarrow> str \<Rightarrow> bool io" where
  "realistic_click pg selector =
     io_bind (io_lift (resolve_visible_element pg selector)) (\<lambda>element.
       case element of
         None \<Rightarrow> io_return False
       | Some el \<Rightarrow>
           io_bind
             (io_try
                (io_bind (io_lift (el_bounding_box el)) (\<lambda>b.
                   case b of
                     None \<Rightarrow> io_return ()
                   | Some bx \<Rightarrow>
                       (let x = box_x bx + box_width bx / 2;
                            y = box_y bx + box_height bx / 2
                        in io_bind (io_emit (MouseMove x y 5)) (\<lambda>u.
                             io_lift (pg_mouse_move pg x y 5)))))
                (\<lambda>e. io_return ()))
             (\<lambda>u. io_bind (io_emit (RandomDelay 80 220)) (\<lambda>u.
                io_try
                  (io_bind (io_emit (Click selector)) (\<lambda>u.
                     io_bind (io_lift (el_click el)) (\<lambda>u.
                       io_bind (io_emit (RandomDelay 80 220)) (\<lambda>u.
                         io_return True))))
                  (\<lambda>e. io_return False))))"



section \<open>ask_question.py: the completion detector\<close>

definition FOLLOW_UP_REMINDER :: str where
  "FOLLOW_UP_REMINDER =
     [10, 10] @ lit ''EXTREMELY IMPORTANT: Is that ALL you need to know? ''
     @ lit ''Before replying to the user, compare this answer with the original request. ''
     @ lit ''If details are missing, ask another comprehensive follow-up question and include full context.''"

text \<open>
  \<^verbatim>\<open>Counter(xs)\<close>: a dictionary from each text to the number of its occurrences, built
  by one pass over the list. \<open>get_count m k\<close> is \<^verbatim>\<open>m.get(k, 0)\<close>, which is also what
  indexing a \<^verbatim>\<open>Counter\<close> gives.
\<close>

definition get_count :: "(str \<rightharpoonup> nat) \<Rightarrow> str \<Rightarrow> nat" where
  "get_count m k = (case m k of None \<Rightarrow> 0 | Some n \<Rightarrow> n)"

definition Counter :: "str list \<Rightarrow> (str \<rightharpoonup> nat)" where
  "Counter xs = fold (\<lambda>x m. m(x \<mapsto> get_count m x + 1)) xs Map.empty"

text \<open>
  Lines 145 to 148: the first text, from the last rendered to the first, whose count in
  the current snapshot is above its count in the baseline.
\<close>

definition primary_candidate :: "(str \<rightharpoonup> nat) \<Rightarrow> str list \<Rightarrow> str option" where
  "primary_candidate previous_counts responses =
     (let current_counts = Counter responses
      in find (\<lambda>text. get_count current_counts text > get_count previous_counts text)
           (rev responses))"

text \<open>
  Lines 151 to 157 without the test \<^verbatim>\<open>candidate is None\<close>: the last text of the current
  snapshot, when the baseline has a (truthy) last text, the two last texts differ and the
  two snapshots differ.
\<close>

definition fallback_candidate :: "str list \<Rightarrow> str option \<Rightarrow> str list \<Rightarrow> str option" where
  "fallback_candidate previous_responses previous_last_response responses =
     (if truthy previous_last_response
         \<and> Some (last responses) \<noteq> previous_last_response
         \<and> responses \<noteq> previous_responses
      then Some (last responses) else None)"

text \<open>Lines 139 to 157: the candidate of one poll.\<close>

definition poll_candidate ::
  "str list \<Rightarrow> str option \<Rightarrow> (str \<rightharpoonup> nat) \<Rightarrow> str list \<Rightarrow> str option" where
  "poll_candidate previous_responses previous_last_response previous_counts responses =
     (if responses \<noteq> [] then
        (case primary_candidate previous_counts responses of
           Some text \<Rightarrow> Some text
         | None \<Rightarrow> fallback_candidate previous_responses previous_last_response responses)
      else None)"

text \<open>
  Lines 159 to 167 on the pair \<^verbatim>\<open>(last_text, stable_count)\<close>: either the function
  returns the answer (\<open>Inr\<close>) or the loop goes on with the new pair (\<open>Inl\<close>).
\<close>

definition stability_step ::
  "str option \<Rightarrow> str option \<times> nat \<Rightarrow> (str option \<times> nat) + str" where
  "stability_step candidate st =
     (case st of (last_text, stable_count) \<Rightarrow>
        if truthy candidate then
          if candidate = last_text then
            (if stable_count + 1 \<ge> 3 then Inr (the candidate @ FOLLOW_UP_REMINDER)
             else Inl (last_text, stable_count + 1))
          else Inl (candidate, 1)
        else Inl (last_text, stable_count))"

text \<open>
  The \<^verbatim>\<open>while\<close> loop and the two lines after it. Each entry of the last argument is one
  test of the loop condition: the value of \<^verbatim>\<open>time.time()\<close> there and the page as that
  iteration reads it. When the entries end before the deadline the result is
  \<open>Unfinished\<close>.
\<close>

fun poll_loop ::
  "str list \<Rightarrow> str option \<Rightarrow> (str \<rightharpoonup> nat) \<Rightarrow> real \<Rightarrow> str option \<times> nat
     \<Rightarrow> (real \<times> page) list \<Rightarrow> str option io" where
  "poll_loop previous_responses previous_last_response previous_counts deadline st [] =
     io_unfinished"
| "poll_loop previous_responses previous_last_response previous_counts deadline st
     ((now, pg) # rest) =
     (if now < deadline then
        io_bind (io_lift (collect_responses pg)) (\<lambda>responses.
          case stability_step
                 (poll_candidate previous_responses previous_last_response previous_counts
                    responses) st of
            Inr answer \<Rightarrow>
              io_bind (io_emit (Print MsgGotAnswer)) (\<lambda>u. io_return (Some answer))
          | Inl st' \<Rightarrow>
              io_bind (io_lift (is_thinking pg)) (\<lambda>thinking.
                if thinking then
                  io_bind (io_emit (Sleep 800)) (\<lambda>u.
                    poll_loop previous_responses previous_last_response previous_counts
                      deadline st' rest)
                else
                  io_bind (io_emit (Sleep 800)) (\<lambda>u.
                    poll_loop previous_responses previous_last_response previous_counts
                      deadline st' rest)))
      else io_bind (io_emit (Print MsgTimeout)) (\<lambda>u. io_return None))"

text \<open>Line 106: \<^verbatim>\<open>previous_responses[-1] if previous_responses else None\<close>.\<close>

definition last_response :: "str list \<Rightarrow> str option" where
  "last_response previous_responses =
     (if previous_responses \<noteq> [] then Some (last previous_responses) else None)"

text \<open>
  For stating what the loop has seen: the snapshot a poll reads from its page (the
  reader never raises, see \<open>collect_from_total\<close> below) and the candidate of that poll
  against the baseline \<open>B\<close>.
\<close>

definition snapshot_of :: "page \<Rightarrow> str list" where
  "snapshot_of pg = (case collect_responses pg of Inr responses \<Rightarrow> responses | Inl e \<Rightarrow> [])"

definition candidate_at :: "str list \<Rightarrow> page \<Rightarrow> str option" where
  "candidate_at B pg = poll_candidate B (last_response B) (Counter B) (snapshot_of pg)"

section \<open>ask_question.py: the session\<close>









section \<open>Example pages\<close>

text \<open>
  Concrete elements, pages and worlds on which the theorems below are evaluated.
  \<open>text_element visible t\<close> is an element whose text is \<open>t\<close>; \<open>page_showing url visible ts\<close>
  answers every \<^verbatim>\<open>query_selector_all\<close> with one such element per text, has no element
  for \<^verbatim>\<open>query_selector\<close>, and times out on every \<^verbatim>\<open>wait_for_selector\<close>.
\<close>

definition text_element :: "bool \<Rightarrow> str \<Rightarrow> element" where
  "text_element visible t =
     \<lparr>el_inner_text = Inr t, el_is_visible = Inr visible, el_bounding_box = Inr None,
      el_click = Inr (), el_type = (\<lambda>c. Inr ())\<rparr>"

definition page_showing :: "str \<Rightarrow> bool \<Rightarrow> str list \<Rightarrow> page" where
  "page_showing url visible ts =
     \<lparr>pg_url = url,
      pg_query_selector_all = (\<lambda>s. Inr (map (text_element visible) ts)),
      pg_query_selector = (\<lambda>s. Inr None),
      pg_wait_for_selector = (\<lambda>s t. Inl (PyError ''TimeoutError'')),
      pg_mouse_move = (\<lambda>x y n. Inr ()),
      pg_keyboard_press = (\<lambda>k. Inr ())\<rparr>"

text \<open>A page every call on which raises, as after the browser has gone away.\<close>

definition page_closed :: page where
  "page_closed =
     \<lparr>pg_url = lit ''https://youmind.com/boards/b1'',
      pg_query_selector_all = (\<lambda>s. Inl (PyError ''TargetClosedError'')),
      pg_query_selector = (\<lambda>s. Inl (PyError ''TargetClosedError'')),
      pg_wait_for_selector = (\<lambda>s t. Inl (PyError ''TargetClosedError'')),
      pg_mouse_move = (\<lambda>x y n. Inl (PyError ''TargetClosedError'')),
      pg_keyboard_press = (\<lambda>k. Inl (PyError ''TargetClosedError''))\<rparr>"


text \<open>
  A page on which the first response selector matches one element holding only blanks
  and every other selector one element holding \<^verbatim>\<open>" Hi "\<close>.
\<close>

definition page_blank_first :: page where
  "page_blank_first =
     \<lparr>pg_url = lit ''https://youmind.com/boards/b1'',
      pg_query_selector_all =
        (\<lambda>s. if s = lit ''div.message-blocks'' then Inr [text_element True [32, 32]]
             else Inr [text_element True [32, 72, 105, 32]]),
      pg_query_selector = (\<lambda>s. Inr None),
      pg_wait_for_selector = (\<lambda>s t. Inl (PyError ''TimeoutError'')),
      pg_mouse_move = (\<lambda>x y n. Inr ()),
      pg_keyboard_press = (\<lambda>k. Inr ())\<rparr>"


definition board_url :: str where
  "board_url = lit ''https://youmind.com/boards/b1''"




text \<open>Three answer texts.\<close>

definition answer_a :: str where
  "answer_a = lit ''Answer A''"

definition answer_b :: str where
  "answer_b = lit ''Answer B''"

definition answer_c :: str where
  "answer_c = lit ''Answer C''"


definition polls_switch :: "(real \<times> page) list" where
  "polls_switch =
     [(1, page_showing board_url False [answer_a]),
      (2, page_showing board_url False [answer_b]),
      (3, page_showing board_url False [answer_b]),
      (4, page_showing board_url False [answer_b])]"

definition polls_gap :: "(real \<times> page) list" where
  "polls_gap =
     [(1, page_showing board_url False [answer_a]),
      (2, page_showing board_url False [answer_a]),
      (3, page_showing board_url False []),
      (4, page_showing board_url False [answer_a])]"

definition polls_twice :: "(real \<times> page) list" where
  "polls_twice =
     [(1, page_showing board_url True [answer_a]),
      (2, page_showing board_url True [answer_a])]"

definition polls_thrice :: "bool \<Rightarrow> (real \<times> page) list" where
  "polls_thrice visible =
     [(1, page_showing board_url visible [answer_a]),
      (2, page_showing board_url visible [answer_a]),
      (3, page_showing board_url visible [answer_a])]"

section \<open>Stripping\<close>

lemma dropWhile_id: "xs = [] \<or> \<not> P (hd xs) \<Longrightarrow> dropWhile P xs = xs"
  by (cases xs) auto

lemma last_dropWhile_nonempty: "dropWhile P xs \<noteq> [] \<Longrightarrow> last (dropWhile P xs) = last xs"
proof -
  assume ne: "dropWhile P xs \<noteq> []"
  have "last xs = last (takeWhile P xs @ dropWhile P xs)" by simp
  also have "\<dots> = last (dropWhile P xs)" using ne by (rule last_appendR)
  finally show ?thesis by simp
qed

lemma strip_ends:
  assumes "strip s \<noteq> []"
  shows "\<not> is_space (hd (strip s))" and "\<not> is_space (last (strip s))"
proof -
  let ?t = "dropWhile is_space s"
  let ?u = "dropWhile is_space (rev ?t)"
  from assms have u: "?u \<noteq> []" by (simp add: strip_def)
  have t: "?t \<noteq> []"
  proof
    assume "?t = []"
    then have "?u = []" by (simp only: rev.simps dropWhile.simps)
    with u show False by contradiction
  qed
  have "hd (strip s) = last ?u" using u by (simp add: strip_def hd_rev)
  also have "\<dots> = last (rev ?t)" using u by (rule last_dropWhile_nonempty)
  also have "\<dots> = hd ?t" using t by (simp add: last_rev)
  finally show "\<not> is_space (hd (strip s))" using hd_dropWhile[OF t] by simp
  have "last (strip s) = hd ?u" using u by (simp add: strip_def last_rev)
  then show "\<not> is_space (last (strip s))" using hd_dropWhile[OF u] by simp
qed

lemma strip_idem: "strip (strip s) = strip s"
proof (cases "strip s = []")
  case True
  have "strip [] = []" by (simp add: strip_def)
  with True show ?thesis by simp
next
  case False
  note ends = strip_ends[OF False]
  have 1: "dropWhile is_space (strip s) = strip s"
    using False ends(1) by (intro dropWhile_id) simp
  have 2: "dropWhile is_space (rev (strip s)) = rev (strip s)"
    using False ends(2) by (intro dropWhile_id) (simp add: hd_rev)
  show ?thesis
    by (subst strip_def) (simp only: 1 2 rev_rev_ident)
qed

section \<open>The readers never raise\<close>

lemma element_texts_stripped:
  "element_texts els = Inr ts \<Longrightarrow> t \<in> set ts \<Longrightarrow> t \<noteq> [] \<and> strip t = t"
  by (induction els arbitrary: ts) (auto split: sum.splits if_splits simp: strip_idem)

lemma collect_from_total: "\<exists>ts. collect_from sels pg = Inr ts"
  by (induction sels) (auto split: sum.splits)

lemma collect_from_stripped:
  "collect_from sels pg = Inr ts \<Longrightarrow> t \<in> set ts \<Longrightarrow> t \<noteq> [] \<and> strip t = t"
  by (induction sels) (auto split: sum.splits if_splits simp: selector_texts_def dest: element_texts_stripped)

lemma collect_from_empty_iff:
  "collect_from sels pg = Inr [] \<longleftrightarrow> (\<forall>sel\<in>set sels. \<forall>ts. selector_texts pg sel = Inr ts \<longrightarrow> ts = [])"
  by (induction sels) (auto split: sum.splits)


section \<open>Counting and scanning\<close>

lemma get_count_fold:
  "get_count (fold (\<lambda>x m. m(x \<mapsto> get_count m x + 1)) xs m) k = get_count m k + count_list xs k"
  by (induction xs arbitrary: m) (auto simp: get_count_def)

lemma get_count_Counter: "get_count (Counter xs) k = count_list xs k"
  unfolding Counter_def by (subst get_count_fold) (simp add: get_count_def)

lemma find_rev_last:
  "\<exists>t\<in>set S. P t \<Longrightarrow>
     \<exists>i<length S. find P (rev S) = Some (S ! i) \<and> P (S ! i) \<and> (\<forall>j. i < j \<and> j < length S \<longrightarrow> \<not> P (S ! j))"
proof (induction S rule: rev_induct)
  case Nil
  then show ?case by simp
next
  case (snoc x xs)
  show ?case
  proof (cases "P x")
    case True
    then show ?thesis by (intro exI[of _ "length xs"]) auto
  next
    case False
    with snoc.prems have "\<exists>t\<in>set xs. P t" by auto
    from snoc.IH[OF this] obtain i where i: "i < length xs" "find P (rev xs) = Some (xs ! i)" "P (xs ! i)"
      "\<forall>j. i < j \<and> j < length xs \<longrightarrow> \<not> P (xs ! j)" by blast
    show ?thesis
      apply (intro exI[of _ i])
      using i False
      apply (auto simp: nth_append less_Suc_eq)
      done
  qed
qed

lemma element_texts_all_blank:
  "\<forall>el\<in>set els. \<exists>t. el_inner_text el = Inr t \<and> strip t = [] \<Longrightarrow> element_texts els = Inr []"
  by (induction els) auto

lemma answers_distinct:
  "answer_a \<noteq> answer_b" "answer_a \<noteq> answer_c" "answer_b \<noteq> answer_c"
  "answer_b \<noteq> answer_a" "answer_c \<noteq> answer_a" "answer_c \<noteq> answer_b"
  "answer_a \<noteq> []" "answer_b \<noteq> []" "answer_c \<noteq> []"
  by (simp_all add: answer_a_def answer_b_def answer_c_def lit_def)

section \<open>The poll loop, step by step\<close>

lemma collect_responses_total: "\<exists>responses. collect_responses pg = Inr responses"
  unfolding collect_responses_def by (rule collect_from_total)

lemma collect_responses_snapshot: "collect_responses pg = Inr (snapshot_of pg)"
  using collect_responses_total[of pg] by (auto simp: snapshot_of_def)

lemma thinking_from_total: "\<exists>b. thinking_from sels pg = Inr b"
  by (induction sels) (auto split: sum.splits)

lemma is_thinking_total: "\<exists>b. is_thinking pg = Inr b"
  unfolding is_thinking_def by (rule thinking_from_total)

lemma poll_loop_step:
  "poll_loop B bl bc deadline st ((now, pg) # rest) evs =
     (if now < deadline then
        (case stability_step (poll_candidate B bl bc (snapshot_of pg)) st of
           Inr answer \<Rightarrow> (Ret (Some answer), evs @ [Print MsgGotAnswer])
         | Inl st' \<Rightarrow> poll_loop B bl bc deadline st' rest (evs @ [Sleep 800]))
      else (Ret None, evs @ [Print MsgTimeout]))"
proof -
  obtain b where b: "is_thinking pg = Inr b" using is_thinking_total by blast
  show ?thesis
    by (simp add: collect_responses_snapshot b io_bind_def io_lift_def io_emit_def io_return_def
        split: sum.splits)
qed

lemma poll_loop_Nil: "poll_loop B bl bc deadline st [] evs = (Unfinished, evs)"
  by (simp add: io_unfinished_def)

declare poll_loop.simps [simp del]

lemma stability_step_Inr:
  "stability_step cand (lt, k) = Inr answer \<Longrightarrow>
     \<exists>c. cand = Some c \<and> c \<noteq> [] \<and> lt = Some c \<and> 2 \<le> k \<and> answer = c @ FOLLOW_UP_REMINDER"
  by (auto simp: stability_step_def truthy_def split: if_splits option.splits)






lemma element_texts_showing:
  "element_texts (map (text_element visible) ts) = Inr (filter (\<lambda>t. t \<noteq> []) (map strip ts))"
  by (induction ts) (auto simp: text_element_def)

lemma collect_from_showing:
  "sels \<noteq> [] \<Longrightarrow>
     collect_from sels (page_showing url visible ts) = Inr (filter (\<lambda>t. t \<noteq> []) (map strip ts))"
proof (induction sels)
  case Nil
  then show ?case by simp
next
  case (Cons s sels)
  have st: "selector_texts (page_showing url visible ts) s
              = Inr (filter (\<lambda>t. t \<noteq> []) (map strip ts))"
    by (simp add: selector_texts_def page_showing_def element_texts_showing)
  show ?case
  proof (cases "sels = []")
    case True
    then show ?thesis by (simp add: st)
  next
    case False
    from Cons.IH[OF this] show ?thesis by (simp add: st)
  qed
qed

lemma snapshot_showing:
  "snapshot_of (page_showing url visible ts) = filter (\<lambda>t. t \<noteq> []) (map strip ts)"
proof -
  have "RESPONSE_SELECTORS \<noteq> []" by (simp add: RESPONSE_SELECTORS_def)
  from collect_from_showing[OF this] show ?thesis
    by (simp add: snapshot_of_def collect_responses_def)
qed

lemma any_visible_showing:
  "any_visible (map (text_element visible) ts) = Inr (visible \<and> ts \<noteq> [])"
  by (induction ts) (auto simp: text_element_def)

lemma is_thinking_showing:
  "is_thinking (page_showing url visible ts) = Inr (visible \<and> ts \<noteq> [])"
  by (simp add: is_thinking_def THINKING_SELECTORS_def page_showing_def any_visible_showing)

lemma strip_answers:
  "strip answer_a = answer_a" "strip answer_b = answer_b" "strip answer_c = answer_c"
  by (simp_all add: strip_def is_space_def answer_a_def answer_b_def answer_c_def lit_def)

lemma stability_step_Inl_history:
  assumes "stability_step cand (lt, k) = Inl (lt', k')"
    and "k = 0 \<or> (\<exists>c pre. lt = Some c \<and> h = pre @ replicate k (Some c))"
  shows "k' = 0 \<or> (\<exists>c pre. lt' = Some c \<and> h @ filter truthy [cand] = pre @ replicate k' (Some c))"
proof (cases "truthy cand")
  case False
  with assms show ?thesis by (auto simp: stability_step_def)
next
  case True
  then obtain c where c: "cand = Some c" by (cases cand) (auto simp: truthy_def)
  show ?thesis
  proof (cases "cand = lt")
    case False
    with True assms(1) c have "lt' = Some c" "k' = 1" by (auto simp: stability_step_def)
    with True c show ?thesis by auto
  next
    case eq: True
    with True assms(1) c have l: "lt' = Some c" "k' = Suc k"
      by (auto simp: stability_step_def split: if_splits)
    show ?thesis
    proof (cases "k = 0")
      case True
      with l \<open>truthy cand\<close> c show ?thesis by auto
    next
      case False
      with assms(2) eq c obtain pre where "h = pre @ replicate k (Some c)" by auto
      then have "h @ [Some c] = pre @ replicate (Suc k) (Some c)"
        by (simp add: replicate_append_same)
      with l \<open>truthy cand\<close> c show ?thesis by auto
    qed
  qed
qed

lemma completion_history:
  assumes "k = 0 \<or> (\<exists>c pre. lt = Some c \<and> h = pre @ replicate k (Some c))"
    and "fst (poll_loop B (last_response B) (Counter B) deadline (lt, k) polls evs) = Ret (Some answer)"
  shows "\<exists>n c pre. n < length polls \<and> c \<noteq> [] \<and> answer = c @ FOLLOW_UP_REMINDER
           \<and> h @ filter truthy (map (\<lambda>p. candidate_at B (snd p)) (take (Suc n) polls))
               = pre @ [Some c, Some c, Some c]"
  using assms
proof (induction polls arbitrary: lt k h evs)
  case Nil
  then show ?case by (simp add: poll_loop_Nil)
next
  case (Cons p polls)
  obtain now pg where p: "p = (now, pg)" by (cases p)
  let ?cand = "candidate_at B pg"
  show ?case
  proof (cases "stability_step ?cand (lt, k)")
    case (Inl st')
    obtain lt' k' where st': "st' = (lt', k')" by (cases st')
    from Cons.prems(2) p Inl st'
    have run: "fst (poll_loop B (last_response B) (Counter B) deadline (lt', k') polls (evs @ [Sleep 800])) = Ret (Some answer)"
      by (simp add: poll_loop_step candidate_at_def split: if_splits)
    from stability_step_Inl_history[OF Inl[unfolded st'] Cons.prems(1)]
    have inv: "k' = 0 \<or> (\<exists>c pre. lt' = Some c \<and> h @ filter truthy [?cand] = pre @ replicate k' (Some c))" .
    from Cons.IH[OF inv run] obtain n c pre where
      n: "n < length polls" "c \<noteq> []" "answer = c @ FOLLOW_UP_REMINDER"
         "(h @ filter truthy [?cand]) @ filter truthy (map (\<lambda>p. candidate_at B (snd p)) (take (Suc n) polls))
            = pre @ [Some c, Some c, Some c]"
      by blast
    show ?thesis
      apply (intro exI[of _ "Suc n"] exI[of _ c] exI[of _ pre])
      using n p by (cases "truthy ?cand") simp_all
  next
    case (Inr a)
    with Cons.prems(2) p have a: "a = answer"
      by (simp add: poll_loop_step candidate_at_def split: if_splits)
    from stability_step_Inr[OF Inr] a obtain c where
      c: "?cand = Some c" "c \<noteq> []" "lt = Some c" "2 \<le> k" "answer = c @ FOLLOW_UP_REMINDER"
      by blast
    with Cons.prems(1) obtain pre where h: "h = pre @ replicate k (Some c)" by auto
    from c(4) obtain j where j: "k = j + 2" by (metis add.commute le_Suc_ex)
    have two: "replicate 2 (Some c) = [Some c, Some c]" by (simp add: numeral_2_eq_2)
    have "replicate k (Some c) = replicate j (Some c) @ replicate 2 (Some c)"
      unfolding j by (rule replicate_add)
    with two have "replicate k (Some c) = replicate j (Some c) @ [Some c, Some c]" by simp
    with h have "h @ [Some c] = (pre @ replicate j (Some c)) @ [Some c, Some c, Some c]" by simp
    then show ?thesis
      apply (intro exI[of _ 0] exI[of _ c] exI[of _ "pre @ replicate j (Some c)"])
      using c p by (simp add: truthy_def)
  qed
qed

lemmas run_simps = poll_loop_step poll_loop_Nil snapshot_showing strip_answers answers_distinct
  candidate_at_def poll_candidate_def primary_candidate_def get_count_Counter stability_step_def
  truthy_def last_response_def fallback_candidate_def

section \<open>The session and the click\<close>

lemmas io_defs = io_bind_def io_lift_def io_emit_def io_return_def io_try_def io_finally_def
  io_unfinished_def


lemma realistic_click_query_selector_raises:
  "pg_query_selector pg selector = Inl e \<Longrightarrow> realistic_click pg selector evs = (Exc e, evs)"
  by (simp add: realistic_click_def resolve_visible_element_def io_defs)

lemma resolve_visible_element_returns:
  "pg_query_selector pg selector = Inr r \<Longrightarrow> \<exists>el. resolve_visible_element pg selector = Inr el"
  by (auto simp: resolve_visible_element_def Let_def split: sum.splits option.splits)

lemma realistic_click_returns:
  assumes "pg_query_selector pg selector = Inr r"
  shows "\<exists>b evs'. realistic_click pg selector evs = (Ret b, evs')"
proof -
  from resolve_visible_element_returns[OF assms] obtain el where
    el: "resolve_visible_element pg selector = Inr el" by blast
  show ?thesis
  proof (cases el)
    case None
    with el show ?thesis by (auto simp: realistic_click_def io_defs)
  next
    case (Some e)
    with el show ?thesis
      by (cases "el_bounding_box e"; cases "el_click e")
         (auto simp: realistic_click_def io_defs Let_def split: option.splits sum.splits)
  qed
qed











section \<open>The primary candidate rule\<close>

text \<open>
  C1. For every baseline \<open>B\<close> and every snapshot \<open>S\<close> in which some text occurs more
  often than in \<open>B\<close>, the primary rule selects the text at the largest index of \<open>S\<close>
  whose count in \<open>S\<close> exceeds its count in \<open>B\<close>: the most recently rendered such text,
  and no earlier one. That text is then the candidate of the poll, whatever the
  baseline's last text \<open>bl\<close> is.
\<close>

theorem primary_rule_most_recent:
  assumes "\<exists>t\<in>set S. count_list B t < count_list S t"
  shows "\<exists>i<length S.
           primary_candidate (Counter B) S = Some (S ! i)
           \<and> poll_candidate B bl (Counter B) S = Some (S ! i)
           \<and> count_list B (S ! i) < count_list S (S ! i)
           \<and> (\<forall>j. i < j \<and> j < length S \<longrightarrow> \<not> count_list B (S ! j) < count_list S (S ! j))"
proof -
  from find_rev_last[of S "\<lambda>t. count_list B t < count_list S t", OF assms]
  obtain i where i: "i < length S"
    "find (\<lambda>t. count_list B t < count_list S t) (rev S) = Some (S ! i)"
    "count_list B (S ! i) < count_list S (S ! i)"
    "\<forall>j. i < j \<and> j < length S \<longrightarrow> \<not> count_list B (S ! j) < count_list S (S ! j)"
    by blast
  have p: "primary_candidate (Counter B) S = Some (S ! i)"
    using i(2) by (simp add: primary_candidate_def get_count_Counter)
  from i(1) have "S \<noteq> []" by auto
  with p have "poll_candidate B bl (Counter B) S = Some (S ! i)"
    by (simp add: poll_candidate_def)
  with p i show ?thesis by blast
qed

theorem primary_rule_most_recent_witness:
  "(\<exists>t\<in>set [answer_a, answer_c, answer_a, answer_b].
       count_list [answer_a, answer_b] t < count_list [answer_a, answer_c, answer_a, answer_b] t)
   \<and> primary_candidate (Counter [answer_a, answer_b]) [answer_a, answer_c, answer_a, answer_b]
       = Some answer_a
   \<and> (\<exists>i<length [answer_a, answer_c, answer_a, answer_b].
         primary_candidate (Counter [answer_a, answer_b]) [answer_a, answer_c, answer_a, answer_b]
           = Some ([answer_a, answer_c, answer_a, answer_b] ! i)
         \<and> poll_candidate [answer_a, answer_b] None (Counter [answer_a, answer_b])
             [answer_a, answer_c, answer_a, answer_b]
             = Some ([answer_a, answer_c, answer_a, answer_b] ! i)
         \<and> count_list [answer_a, answer_b] ([answer_a, answer_c, answer_a, answer_b] ! i)
             < count_list [answer_a, answer_c, answer_a, answer_b]
                 ([answer_a, answer_c, answer_a, answer_b] ! i)
         \<and> (\<forall>j. i < j \<and> j < length [answer_a, answer_c, answer_a, answer_b] \<longrightarrow>
               \<not> count_list [answer_a, answer_b] ([answer_a, answer_c, answer_a, answer_b] ! j)
                   < count_list [answer_a, answer_c, answer_a, answer_b]
                       ([answer_a, answer_c, answer_a, answer_b] ! j)))"
proof -
  have h: "\<exists>t\<in>set [answer_a, answer_c, answer_a, answer_b].
       count_list [answer_a, answer_b] t < count_list [answer_a, answer_c, answer_a, answer_b] t"
    by (simp add: answers_distinct)
  have v: "primary_candidate (Counter [answer_a, answer_b]) [answer_a, answer_c, answer_a, answer_b]
       = Some answer_a"
    by (simp add: primary_candidate_def get_count_Counter answers_distinct)
  from h v primary_rule_most_recent[OF h, of None] show ?thesis by (intro conjI)
qed

section \<open>The fallback needs a baseline\<close>

text \<open>
  C4. With an empty baseline (so that line 106 gives \<^verbatim>\<open>None\<close> as its last text) the
  in-place-update fallback yields no candidate for any current snapshot; the candidate of
  the poll is what the primary rule yields, which for a non-empty snapshot is its last
  text.
\<close>

theorem fallback_needs_baseline_last:
  "fallback_candidate [] (last_response []) S = None
   \<and> poll_candidate [] (last_response []) (Counter []) S = primary_candidate (Counter []) S
   \<and> (S \<noteq> [] \<longrightarrow> poll_candidate [] (last_response []) (Counter []) S = Some (last S))"
proof (intro conjI impI)
  show f: "fallback_candidate [] (last_response []) S = None"
    by (simp add: fallback_candidate_def last_response_def truthy_def)
  show "poll_candidate [] (last_response []) (Counter []) S = primary_candidate (Counter []) S"
    using f by (cases S) (simp_all add: poll_candidate_def primary_candidate_def split: option.splits)
  assume ne: "S \<noteq> []"
  then have "primary_candidate (Counter []) S = Some (last S)"
    by (simp add: primary_candidate_def get_count_Counter hd_rev) (cases "rev S"; simp)
  with ne show "poll_candidate [] (last_response []) (Counter []) S = Some (last S)"
    by (simp add: poll_candidate_def)
qed

theorem fallback_needs_baseline_last_witness:
  "[[72, 105]] \<noteq> ([] :: str list)
   \<and> fallback_candidate [] (last_response []) [[72, 105]] = None
   \<and> poll_candidate [] (last_response []) (Counter []) [[72, 105]] = Some [72, 105]"
proof -
  have ne: "[[72, 105]] \<noteq> ([] :: str list)" by simp
  have l: "last [[72, 105 :: nat]] = [72, 105]" by simp
  from fallback_needs_baseline_last[of "[[72, 105]]"] ne l show ?thesis by metis
qed

section \<open>Selector resolution\<close>



section \<open>The texts of a snapshot\<close>

text \<open>
  C10. Every text \<^verbatim>\<open>_collect_responses\<close> returns is stripped and non-empty. A selector
  all of whose elements hold only white space is passed over for the next one. The
  result is \<^verbatim>\<open>[]\<close> exactly when no selector of the list completes its scan with at
  least one non-empty text (a scan in which an element raises does not complete).
\<close>

theorem collect_responses_nonempty_texts:
  "(\<exists>ts. collect_responses pg = Inr ts \<and> (\<forall>t\<in>set ts. strip t \<noteq> [] \<and> strip t = t))
   \<and> (pg_query_selector_all pg selector = Inr els
        \<and> (\<forall>el\<in>set els. \<exists>t. el_inner_text el = Inr t \<and> strip t = [])
      \<longrightarrow> collect_from (selector # rest) pg = collect_from rest pg)
   \<and> (collect_responses pg = Inr [] \<longleftrightarrow>
        (\<forall>selector\<in>set RESPONSE_SELECTORS. \<forall>ts. selector_texts pg selector = Inr ts \<longrightarrow> ts = []))"
proof (intro conjI impI)
  obtain ts where ts: "collect_responses pg = Inr ts"
    unfolding collect_responses_def using collect_from_total by blast
  then have "\<forall>t\<in>set ts. strip t \<noteq> [] \<and> strip t = t"
    unfolding collect_responses_def using collect_from_stripped by fastforce
  with ts show "\<exists>ts. collect_responses pg = Inr ts \<and> (\<forall>t\<in>set ts. strip t \<noteq> [] \<and> strip t = t)"
    by blast
next
  assume a: "pg_query_selector_all pg selector = Inr els
        \<and> (\<forall>el\<in>set els. \<exists>t. el_inner_text el = Inr t \<and> strip t = [])"
  then have "selector_texts pg selector = Inr []"
    by (simp add: selector_texts_def element_texts_all_blank)
  then show "collect_from (selector # rest) pg = collect_from rest pg"
    by simp
next
  show "collect_responses pg = Inr [] \<longleftrightarrow>
        (\<forall>selector\<in>set RESPONSE_SELECTORS. \<forall>ts. selector_texts pg selector = Inr ts \<longrightarrow> ts = [])"
    unfolding collect_responses_def by (rule collect_from_empty_iff)
qed

theorem collect_responses_nonempty_texts_witness:
  "pg_query_selector_all page_blank_first (lit ''div.message-blocks'') = Inr [text_element True [32, 32]]
   \<and> el_inner_text (text_element True [32, 32]) = Inr [32, 32]
   \<and> strip [32, 32] = []
   \<and> collect_from (lit ''div.message-blocks'' # tl RESPONSE_SELECTORS) page_blank_first
       = collect_from (tl RESPONSE_SELECTORS) page_blank_first
   \<and> collect_responses page_blank_first = Inr [[72, 105]]
   \<and> strip [72, 105] = [72, 105]"
proof -
  have q: "pg_query_selector_all page_blank_first (lit ''div.message-blocks'') = Inr [text_element True [32, 32]]"
    by (simp add: page_blank_first_def)
  have b: "\<forall>el\<in>set [text_element True [32, 32]]. \<exists>t. el_inner_text el = Inr t \<and> strip t = []"
    by (simp add: text_element_def strip_def is_space_def)
  have c: "collect_responses page_blank_first = Inr [[72, 105]]"
    by (simp add: collect_responses_def RESPONSE_SELECTORS_def lit_def page_blank_first_def
        selector_texts_def text_element_def strip_def is_space_def)
  from collect_responses_nonempty_texts
         [of page_blank_first "lit ''div.message-blocks''" "[text_element True [32, 32]]" "tl RESPONSE_SELECTORS"]
       q b c
  show ?thesis by (auto simp: text_element_def strip_def is_space_def)
qed

section \<open>Stability\<close>

text \<open>
  C2, as amended. When the loop, started with no last text and a count of 0, returns an
  answer, the answer is a non-empty text \<open>c\<close> followed by the reminder, and among the
  polls up to the returning one, those that yielded a candidate end with \<open>c\<close> three
  times in a row: no other candidate lies between the three, but polls without a
  candidate may. On the pair \<^verbatim>\<open>(last_text, stable_count)\<close>: a first observation of \<open>c\<close>
  sets the count to 1, a second to 2, the third returns; a different candidate \<open>d\<close>
  resets the count to 1 whatever it was; a poll without a candidate leaves the pair
  as it is.
\<close>

theorem completion_after_three_confirmations:
  "(fst (poll_loop B (last_response B) (Counter B) deadline (None, 0) polls evs) = Ret (Some answer)
      \<longrightarrow> (\<exists>n c pre. n < length polls \<and> c \<noteq> [] \<and> answer = c @ FOLLOW_UP_REMINDER
             \<and> filter truthy (map (\<lambda>p. candidate_at B (snd p)) (take (Suc n) polls))
                 = pre @ [Some c, Some c, Some c]))
   \<and> (c \<noteq> [] \<longrightarrow>
        stability_step (Some c) (None, 0) = Inl (Some c, 1)
        \<and> stability_step (Some c) (Some c, 1) = Inl (Some c, 2)
        \<and> stability_step (Some c) (Some c, 2) = Inr (c @ FOLLOW_UP_REMINDER))
   \<and> (d \<noteq> [] \<and> d \<noteq> c \<longrightarrow> stability_step (Some d) (Some c, k) = Inl (Some d, 1))
   \<and> stability_step None st = Inl st"
proof (intro conjI impI)
  assume "fst (poll_loop B (last_response B) (Counter B) deadline (None, 0) polls evs) = Ret (Some answer)"
  from completion_history[of 0 None "[]", OF _ this]
  show "\<exists>n c pre. n < length polls \<and> c \<noteq> [] \<and> answer = c @ FOLLOW_UP_REMINDER
             \<and> filter truthy (map (\<lambda>p. candidate_at B (snd p)) (take (Suc n) polls))
                 = pre @ [Some c, Some c, Some c]"
    by simp
qed (auto simp: stability_step_def truthy_def split: prod.splits)

theorem completion_after_three_confirmations_witness:
  "fst (poll_loop [] (last_response []) (Counter []) 120 (None, 0) polls_switch [])
     = Ret (Some (answer_b @ FOLLOW_UP_REMINDER))
   \<and> (\<exists>n c pre. n < length polls_switch \<and> c \<noteq> []
         \<and> answer_b @ FOLLOW_UP_REMINDER = c @ FOLLOW_UP_REMINDER
         \<and> filter truthy (map (\<lambda>p. candidate_at [] (snd p)) (take (Suc n) polls_switch))
             = pre @ [Some c, Some c, Some c])
   \<and> stability_step (Some answer_b) (Some answer_a, 2) = Inl (Some answer_b, 1)
   \<and> stability_step (Some answer_a) (Some answer_a, 2) = Inr (answer_a @ FOLLOW_UP_REMINDER)"
proof -
  have run: "fst (poll_loop [] (last_response []) (Counter []) 120 (None, 0) polls_switch [])
     = Ret (Some (answer_b @ FOLLOW_UP_REMINDER))"
    by (simp add: polls_switch_def run_simps)
  note t = completion_after_three_confirmations
         [of "[]" 120 polls_switch "[]" "answer_b @ FOLLOW_UP_REMINDER" answer_a answer_b 2 "(None, 0)"]
  from t run have 1: "\<exists>n c pre. n < length polls_switch \<and> c \<noteq> []
         \<and> answer_b @ FOLLOW_UP_REMINDER = c @ FOLLOW_UP_REMINDER
         \<and> filter truthy (map (\<lambda>p. candidate_at [] (snd p)) (take (Suc n) polls_switch))
             = pre @ [Some c, Some c, Some c]"
    by blast
  from t have 2: "stability_step (Some answer_b) (Some answer_a, 2) = Inl (Some answer_b, 1)"
    using answers_distinct by blast
  from t have 3: "stability_step (Some answer_a) (Some answer_a, 2) = Inr (answer_a @ FOLLOW_UP_REMINDER)"
    using answers_distinct by blast
  from run 1 2 3 show ?thesis by (intro conjI)
qed

text \<open>
  C2, as stated, asks for three consecutive polls. In \<open>polls_gap\<close> the candidates
  of the four polls are \<open>answer_a\<close>, \<open>answer_a\<close>, none, \<open>answer_a\<close>, and the loop
  returns \<open>answer_a\<close> at the fourth: the poll without a candidate has not reset the
  count.
\<close>

theorem completion_without_three_consecutive_polls:
  "fst (poll_loop [] (last_response []) (Counter []) 120 (None, 0) polls_gap [])
     = Ret (Some (answer_a @ FOLLOW_UP_REMINDER))
   \<and> map (\<lambda>p. candidate_at [] (snd p)) polls_gap
       = [Some answer_a, Some answer_a, None, Some answer_a]"
  by (simp add: polls_gap_def run_simps)

section \<open>What the detector reports\<close>



section \<open>The deadline\<close>

text \<open>
  C5. Let the loop have gone through the polls \<open>pre\<close> without returning (no poll of
  \<open>pre\<close> was at or past the deadline, and the count has not reached 3). If the clock reads
  \<open>now\<close> at or past the deadline at the next test of the loop condition, the function
  prints the timeout message and returns \<^verbatim>\<open>None\<close>: no text, whatever candidate is
  pending in \<open>st\<close> and whatever the page shows then or later. The value goes through
  the \<^verbatim>\<open>finally\<close> clause unchanged: \<open>ask_youmind_with_input\<close> is a whole exchange
  that ends this way.
\<close>

theorem deadline_gives_timeout:
  assumes "deadline \<le> now"
    and "fst (poll_loop B bl bc deadline st pre evs) = Unfinished"
  shows "\<exists>evs'. poll_loop B bl bc deadline st (pre @ (now, pg) # rest) evs
                  = (Ret None, evs' @ [Print MsgTimeout])"
  using assms(2)
proof (induction pre arbitrary: st evs)
  case Nil
  from assms(1) show ?case by (simp add: poll_loop_step)
next
  case (Cons p pre)
  obtain t pg' where p: "p = (t, pg')" by (cases p)
  from Cons.prems p have lt: "t < deadline"
    by (simp add: poll_loop_step split: if_splits)
  from Cons.prems p lt obtain st' where
    st': "stability_step (poll_candidate B bl bc (snapshot_of pg')) st = Inl st'"
    by (cases "stability_step (poll_candidate B bl bc (snapshot_of pg')) st")
       (simp_all add: poll_loop_step)
  with Cons.prems p lt
  have "fst (poll_loop B bl bc deadline st' pre (evs @ [Sleep 800])) = Unfinished"
    by (simp add: poll_loop_step)
  from Cons.IH[OF this] p lt st' show ?case by (simp add: poll_loop_step)
qed

theorem deadline_gives_timeout_witness:
  "(120::real) \<le> 120.5
   \<and> fst (poll_loop [] (last_response []) (Counter []) 120 (None, 0) polls_twice []) = Unfinished
   \<and> (\<exists>evs'. poll_loop [] (last_response []) (Counter []) 120 (None, 0)
          (polls_twice @ (120.5, page_showing board_url True [answer_a]) # []) []
        = (Ret None, evs' @ [Print MsgTimeout]))"
proof -
  have a: "(120::real) \<le> 120.5" by simp
  have b: "fst (poll_loop [] (last_response []) (Counter []) 120 (None, 0) polls_twice [])
             = Unfinished"
    by (simp add: polls_twice_def run_simps)
  from a b deadline_gives_timeout[OF a b] show ?thesis by (intro conjI)
qed

section \<open>The thinking indicator\<close>

text \<open>
  C9. Two runs of the loop from the same state, whose polls agree pairwise on the clock
  and on what \<^verbatim>\<open>_collect_responses\<close> reads, have the same result and the same events,
  whatever \<^verbatim>\<open>_is_thinking\<close> sees in either: the indicator neither delays nor forces
  the return.
\<close>

theorem thinking_indicator_is_advisory:
  assumes "list_all2 (\<lambda>p q. fst p = fst q \<and> collect_responses (snd p) = collect_responses (snd q))
             polls polls'"
  shows "poll_loop B bl bc deadline st polls evs = poll_loop B bl bc deadline st polls' evs"
  using assms
proof (induction polls polls' arbitrary: st evs rule: list_all2_induct)
  case Nil
  show ?case by simp
next
  case (Cons p polls q polls')
  obtain now pg where p: "p = (now, pg)" by (cases p)
  obtain now' pg' where q: "q = (now', pg')" by (cases q)
  from Cons.hyps(1) p q have eq: "now' = now" "snapshot_of pg' = snapshot_of pg"
    by (simp_all add: snapshot_of_def)
  show ?case
    unfolding p q by (simp add: poll_loop_step eq Cons.IH split: sum.splits)
qed

theorem thinking_indicator_is_advisory_witness:
  "is_thinking (page_showing board_url True [answer_a]) = Inr True
   \<and> is_thinking (page_showing board_url False [answer_a]) = Inr False
   \<and> poll_loop [] (last_response []) (Counter []) 120 (None, 0) (polls_thrice True) []
      = poll_loop [] (last_response []) (Counter []) 120 (None, 0) (polls_thrice False) []
   \<and> fst (poll_loop [] (last_response []) (Counter []) 120 (None, 0) (polls_thrice True) [])
      = Ret (Some (answer_a @ FOLLOW_UP_REMINDER))"
proof -
  have same: "collect_responses (page_showing board_url True [answer_a])
                = collect_responses (page_showing board_url False [answer_a])"
    by (simp add: collect_responses_snapshot snapshot_showing)
  have h: "list_all2 (\<lambda>p q. fst p = fst q \<and> collect_responses (snd p) = collect_responses (snd q))
             (polls_thrice True) (polls_thrice False)"
    by (simp add: polls_thrice_def same)
  have t: "is_thinking (page_showing board_url True [answer_a]) = Inr True"
          "is_thinking (page_showing board_url False [answer_a]) = Inr False"
    by (simp_all add: is_thinking_showing)
  have r: "fst (poll_loop [] (last_response []) (Counter []) 120 (None, 0) (polls_thrice True) [])
      = Ret (Some (answer_a @ FOLLOW_UP_REMINDER))"
    by (simp add: polls_thrice_def run_simps)
  from t thinking_indicator_is_advisory
           [OF h, of "[]" "last_response []" "Counter []" 120 "(None, 0)" "[]"] r
  show ?thesis by (intro conjI)
qed

section \<open>The sign-in redirect\<close>




section \<open>The click\<close>

text \<open>
  C8, at a failing input. On a page whose \<^verbatim>\<open>query_selector\<close> raises,
  \<^verbatim>\<open>realistic_click\<close> does not return a boolean: the exception of line 85 of
  \<^verbatim>\<open>browser_utils.py\<close>, which no \<^verbatim>\<open>try\<close> encloses, reaches the caller
  (\<open>realistic_click_query_selector_raises\<close> for any page and selector). When
  \<^verbatim>\<open>query_selector\<close> returns, the function returns a boolean
  (\<open>realistic_click_returns\<close>).
\<close>

theorem realistic_click_propagates_exception:
  "realistic_click page_closed (hd SEND_BUTTON_SELECTORS) []
     = (Exc (PyError ''TargetClosedError''), [])"
  by (simp add: realistic_click_def resolve_visible_element_def page_closed_def io_defs)

end
